theory Spec2Isabelle
  imports Complex_Main "HOL-Library.AList" "HOL-Library.Sublist"
begin

section \<open>Similarity matcher (node-validator.js)\<close>

subsection \<open>JavaScript arrays and numbers\<close>






subsection \<open>levenshtein\_distance\<close>








subsection \<open>calculate\_similarity and find\_similar\_node\_type\<close>







subsection \<open>Edit distance, as the specification words it\<close>







section \<open>Registry cache (node-validator.js)\<close>

subsection \<open>Data\<close>

text \<open>
  An object of the remote payload, with the fields the code reads and the JSON types the
  interface gives them; \<open>None\<close> is a field that is absent.
\<close>

record api_node =
  name :: "string option"
  displayName :: "string option"
  description :: "string option"
  group :: "string list option"
  version :: "rat option"

text \<open>The descriptor stored under a name.\<close>

record node_info =
  name :: string
  display_name :: string
  description :: "string option"
  type :: "string option"
  version :: "rat option"

text \<open>
  A JavaScript \<open>Map\<close> iterates in insertion order, and \<open>set\<close> on a key that is already
  there keeps the key's position: an association list with \<^const>\<open>AList.update\<close>.
\<close>

type_synonym registry = "(string \<times> node_info) list"

definition map_has :: "registry \<Rightarrow> string \<Rightarrow> bool" where
  "map_has reg k = (map_of reg k \<noteq> None)"

definition map_keys :: "registry \<Rightarrow> string list" where
  "map_keys reg = map fst reg"

definition map_values :: "registry \<Rightarrow> node_info list" where
  "map_values reg = map snd reg"

text \<open>
  What the remote end answers to one request: \<open>fetch\<close> rejects, the status is not ok,
  \<open>response.json()\<close> rejects, or a JSON value arrives. Of that value the code reads the
  enumerable keys when it is an object (\<open>None\<close> is any other value); a key maps to an
  object or to \<open>null\<close> (\<open>None\<close>).
\<close>

datatype remote =
    FetchThrows
  | NotOk nat
  | JsonThrows
  | Json "(string \<times> api_node option) list option"

datatype fetch_error = NetworkError | HttpError nat | ParseError | TypeError

text \<open>
  The validator object. \<open>fetch_promise\<close> holds the number of the request it stands for;
  \<open>fetches\<close> is not a field of the class: it counts the requests sent to the remote end.
\<close>

record validator =
  node_registry :: registry
  last_fetch_time :: int
  is_fetching :: bool
  fetch_promise :: "nat option"
  fetches :: nat

definition CACHE_DURATION :: int where
  "CACHE_DURATION = 60 * 60 * 1000"

definition new_validator :: validator where
  "new_validator =
     \<lparr> node_registry = [], last_fetch_time = 0, is_fetching = False,
       fetch_promise = None, fetches = 0 \<rparr>"

subsection \<open>fetch\_node\_registry and add\_fallback\_nodes\<close>

definition join_strings :: "string \<Rightarrow> string list \<Rightarrow> string" where
  "join_strings sep xs = (case xs of [] \<Rightarrow> [] | y # ys \<Rightarrow> y @ concat (map (\<lambda>z. sep @ z) ys))"

text \<open>The value stored for an object whose \<open>name\<close> is the non-empty string \<open>nm\<close>.\<close>

definition node_entry :: "api_node \<Rightarrow> string \<Rightarrow> node_info" where
  "node_entry node nm =
     \<lparr> node_info.name = nm,
       display_name =
         (case displayName node of
            None \<Rightarrow> nm
          | Some d \<Rightarrow> if d = [] then nm else d),
       description = api_node.description node,
       type = (case group node of None \<Rightarrow> None | Some g \<Rightarrow> Some (join_strings '', '' g)),
       version = api_node.version node \<rparr>"

text \<open>
  The \<open>for ... in\<close> loop over the payload. Reading \<open>node.name\<close> of \<open>null\<close> throws; the
  registry is then left as the loop had filled it so far.
\<close>

fun process_nodes ::
  "(string \<times> api_node option) list \<Rightarrow> registry \<Rightarrow> registry \<times> fetch_error option" where
  "process_nodes [] reg = (reg, None)"
| "process_nodes ((node_key, None) # rest) reg = (reg, Some TypeError)"
| "process_nodes ((node_key, Some node) # rest) reg =
     (case api_node.name node of
        None \<Rightarrow> process_nodes rest reg
      | Some nm \<Rightarrow>
          if nm = [] then process_nodes rest reg
          else process_nodes rest (AList.update nm (node_entry node nm) reg))"

text \<open>
  The \<open>try\<close> block: the state it leaves and the exception it throws, if any. \<open>now\<close> is
  what \<open>Date.now()\<close> returns when the block reaches it.
\<close>

definition try_fetch ::
  "remote \<Rightarrow> int \<Rightarrow> 'a validator_scheme \<Rightarrow> 'a validator_scheme \<times> fetch_error option" where
  "try_fetch r now v =
     (case r of
        FetchThrows \<Rightarrow> (v, Some NetworkError)
      | NotOk status \<Rightarrow> (v, Some (HttpError status))
      | JsonThrows \<Rightarrow> (v, Some ParseError)
      | Json data \<Rightarrow>
          (case data of
             None \<Rightarrow> (v\<lparr>node_registry := [], last_fetch_time := now\<rparr>, None)
           | Some entries \<Rightarrow>
               (case process_nodes entries [] of
                  (reg, Some e) \<Rightarrow> (v\<lparr>node_registry := reg\<rparr>, Some e)
                | (reg, None) \<Rightarrow> (v\<lparr>node_registry := reg, last_fetch_time := now\<rparr>, None))))"

definition fallback_nodes :: "(string \<times> string) list" where
  "fallback_nodes =
     [(''n8n-nodes-base.start'', ''Start''),
      (''n8n-nodes-base.manualTrigger'', ''Manual Trigger''),
      (''n8n-nodes-base.httpRequest'', ''HTTP Request''),
      (''n8n-nodes-base.set'', ''Set''),
      (''n8n-nodes-base.function'', ''Function''),
      (''n8n-nodes-base.if'', ''IF''),
      (''n8n-nodes-base.switch'', ''Switch''),
      (''n8n-nodes-base.merge'', ''Merge'')]"

definition fallback_entry :: "string \<times> string \<Rightarrow> node_info" where
  "fallback_entry node =
     \<lparr> node_info.name = fst node, display_name = snd node,
       description = None, type = None, version = None \<rparr>"

definition add_fallback_nodes :: "'a validator_scheme \<Rightarrow> 'a validator_scheme" where
  "add_fallback_nodes v =
     v\<lparr>node_registry :=
         foldl (\<lambda>reg node. AList.update (fst node) (fallback_entry node) reg)
               (node_registry v) fallback_nodes\<rparr>"

text \<open>
  The whole method: the \<open>catch\<close> clause receives whatever the \<open>try\<close> block threw. The
  result is \<open>Inl\<close> when the promise of the method rejects, \<open>Inr\<close> when it resolves.
\<close>

definition fetch_node_registry ::
  "remote \<Rightarrow> int \<Rightarrow> 'a validator_scheme \<Rightarrow> fetch_error + 'a validator_scheme" where
  "fetch_node_registry r now v =
     (case try_fetch r now v of
        (v', None) \<Rightarrow> Inr v'
      | (v', Some error) \<Rightarrow>
          if length (node_registry v') = 0
          then Inr ((add_fallback_nodes v')\<lparr>last_fetch_time := now\<rparr>)
          else Inr v')"

subsection \<open>The public methods, one caller at a time\<close>

text \<open>
  What one call of \<open>ensure_node_registry_is_loaded\<close> meets: the clock when it starts,
  the answer of the remote end should it ask, and the clock when that answer has been
  processed.
\<close>

record env =
  at_call :: int
  answer :: remote
  at_done :: int

text \<open>
  With no other caller interleaved, the \<open>await\<close> runs the request to its end. In the
  first branch the method returns the promise of a request that is under way.
\<close>

definition ensure_node_registry_is_loaded :: "env \<Rightarrow> validator \<Rightarrow> fetch_error + validator" where
  "ensure_node_registry_is_loaded e v =
     (let now = at_call e in
      if is_fetching v \<and> fetch_promise v \<noteq> None then Inr v
      else if length (node_registry v) > 0 \<and> now - last_fetch_time v < CACHE_DURATION
      then Inr v
      else
        (let v1 = v\<lparr>is_fetching := True, fetch_promise := Some (fetches v),
                     fetches := fetches v + 1\<rparr>
         in case fetch_node_registry (answer e) (at_done e) v1 of
              Inl error \<Rightarrow> Inl error
            | Inr v2 \<Rightarrow> Inr (v2\<lparr>is_fetching := False, fetch_promise := None\<rparr>)))"




definition get_available_node_types :: "env \<Rightarrow> validator \<Rightarrow> fetch_error + (string list \<times> validator)" where
  "get_available_node_types e v =
     (case ensure_node_registry_is_loaded e v of
        Inl error \<Rightarrow> Inl error
      | Inr v1 \<Rightarrow> Inr (map_keys (node_registry v1), v1))"

definition get_available_nodes :: "env \<Rightarrow> validator \<Rightarrow> fetch_error + (node_info list \<times> validator)" where
  "get_available_nodes e v =
     (case ensure_node_registry_is_loaded e v of
        Inl error \<Rightarrow> Inl error
      | Inr v1 \<Rightarrow> Inr (map_values (node_registry v1), v1))"

text \<open>
  A workflow node, of which only \<open>type\<close> is read, and an entry of the returned array.
\<close>

record workflow_node =
  type :: string




subsection \<open>Interleaved callers\<close>

text \<open>
  JavaScript runs one piece of code at a time and switches only at an \<open>await\<close>. The
  validator is therefore a machine that moves by three kinds of event:
  \<^item> \<open>Call c now\<close>: caller \<open>c\<close> enters \<open>ensure_node_registry_is_loaded\<close>, which runs up to
    its first \<open>await\<close> (and, when it starts a request, \<open>fetch_node_registry\<close> up to the
    \<open>await fetch(...)\<close>);
  \<^item> \<open>Settle p r now\<close>: the remote end answers request \<open>p\<close> with \<open>r\<close> and the rest of
    \<open>fetch_node_registry\<close> runs, which resolves promise \<open>p\<close>;
  \<^item> \<open>Resume p\<close>: the caller that started \<open>p\<close> continues after its \<open>await\<close> and runs the
    \<open>finally\<close> block.
  Beside the fields of the object the state records the requests that are out
  (\<open>pending\<close>), the promises resolved whose starter has not resumed (\<open>settled\<close>), and
  which promise each suspended caller was handed (\<open>handed\<close>).
\<close>

record sys = validator +
  pending :: "nat list"
  settled :: "nat list"
  handed :: "(nat \<times> nat) list"

datatype event = Call nat int | Settle nat remote int | Resume nat

definition new_sys :: sys where
  "new_sys =
     \<lparr> node_registry = [], last_fetch_time = 0, is_fetching = False,
       fetch_promise = None, fetches = 0, pending = [], settled = [], handed = [] \<rparr>"

fun step :: "event \<Rightarrow> sys \<Rightarrow> sys option" where
  "step (Call c now) s =
     (if is_fetching s \<and> fetch_promise s \<noteq> None
      then Some (s\<lparr>handed := handed s @ [(c, the (fetch_promise s))]\<rparr>)
      else if length (node_registry s) > 0 \<and> now - last_fetch_time s < CACHE_DURATION
      then Some s
      else Some (s\<lparr>is_fetching := True, fetch_promise := Some (fetches s),
                    fetches := fetches s + 1,
                    pending := pending s @ [fetches s],
                    handed := handed s @ [(c, fetches s)]\<rparr>))"
| "step (Settle p r now) s =
     (if p \<in> set (pending s)
      then (case fetch_node_registry r now s of
              Inl error \<Rightarrow> Some (s\<lparr>pending := remove1 p (pending s), settled := settled s @ [p]\<rparr>)
            | Inr s' \<Rightarrow> Some (s'\<lparr>pending := remove1 p (pending s), settled := settled s @ [p]\<rparr>))
      else None)"
| "step (Resume p) s =
     (if p \<in> set (settled s)
      then Some (s\<lparr>is_fetching := False, fetch_promise := None,
                    settled := remove1 p (settled s)\<rparr>)
      else None)"

text \<open>A run of events; \<open>None\<close> when some event cannot happen in the state it meets.\<close>

fun run :: "event list \<Rightarrow> sys \<Rightarrow> sys option" where
  "run [] s = Some s"
| "run (ev # evs) s = (case step ev s of None \<Rightarrow> None | Some s' \<Rightarrow> run evs s')"

definition calls :: "(nat \<times> int) list \<Rightarrow> event list" where
  "calls cs = map (\<lambda>(c, now). Call c now) cs"

definition stale :: "'a validator_scheme \<Rightarrow> int \<Rightarrow> bool" where
  "stale v now = (\<not> (length (node_registry v) > 0 \<and> now - last_fetch_time v < CACHE_DURATION))"

definition idle :: "sys \<Rightarrow> bool" where
  "idle s = (pending s = [] \<and> settled s = [])"

section \<open>Response budgeter (build/index.js)\<close>

subsection \<open>JSON values and JSON.stringify\<close>

text \<open>
  A value as \<open>JSON.parse\<close> delivers it. A number is carried as the text that JavaScript
  prints for it, which is all that the code does with a number; the members of an object
  are in the order the object enumerates them.
\<close>

datatype json =
    JNull
  | JBool bool
  | JNum string
  | JStr string
  | JArr "json list"
  | JObj "(string \<times> json) list"

definition hex_digit :: "nat \<Rightarrow> char" where
  "hex_digit n = (if n < 10 then char_of (48 + n) else char_of (87 + n))"

text \<open>\<open>QuoteJSONString\<close>, one code unit at a time.\<close>

definition escape_char :: "char \<Rightarrow> string" where
  "escape_char c =
     (let n = (of_char c :: nat) in
      if n = 8 then [CHR 0x5C, CHR ''b'']
      else if n = 9 then [CHR 0x5C, CHR ''t'']
      else if n = 10 then [CHR 0x5C, CHR ''n'']
      else if n = 12 then [CHR 0x5C, CHR ''f'']
      else if n = 13 then [CHR 0x5C, CHR ''r'']
      else if n = 34 then [CHR 0x5C, CHR 0x22]
      else if n = 92 then [CHR 0x5C, CHR 0x5C]
      else if n < 32 then [CHR 0x5C] @ ''u00'' @ [hex_digit (n div 16), hex_digit (n mod 16)]
      else [c])"

definition quote :: "string \<Rightarrow> string" where
  "quote s = [CHR 0x22] @ concat (map escape_char s) @ [CHR 0x22]"

definition spaces :: "nat \<Rightarrow> string" where
  "spaces n = replicate n (CHR '' '')"

text \<open>
  \<open>JSON.stringify(value, null, 2)\<close> at indentation \<open>ind\<close>: the elements of a non-empty
  array or object go on lines of their own, two spaces further in.
\<close>

fun stringify_at :: "nat \<Rightarrow> json \<Rightarrow> string" where
  "stringify_at ind JNull = ''null''"
| "stringify_at ind (JBool b) = (if b then ''true'' else ''false'')"
| "stringify_at ind (JNum t) = t"
| "stringify_at ind (JStr s) = quote s"
| "stringify_at ind (JArr xs) =
     (if xs = [] then ''[]''
      else ''['' @ [CHR 0x0A] @ spaces (ind + 2)
           @ join_strings ('','' @ [CHR 0x0A] @ spaces (ind + 2))
               (map (stringify_at (ind + 2)) xs)
           @ [CHR 0x0A] @ spaces ind @ '']'')"
| "stringify_at ind (JObj ms) =
     (if ms = [] then ''{}''
      else ''{'' @ [CHR 0x0A] @ spaces (ind + 2)
           @ join_strings ('','' @ [CHR 0x0A] @ spaces (ind + 2))
               (map (\<lambda>m. quote (fst m) @ '': '' @ stringify_at (ind + 2) (snd m)) ms)
           @ [CHR 0x0A] @ spaces ind @ ''}'')"

definition stringify :: "json \<Rightarrow> string" where
  "stringify v = stringify_at 0 v"

subsection \<open>Reading values the way the code does\<close>

text \<open>\<open>v.k\<close> for the property names the code uses: \<open>None\<close> is \<open>undefined\<close>.\<close>

definition get_prop :: "json \<Rightarrow> string \<Rightarrow> json option" where
  "get_prop v k = (case v of JObj ms \<Rightarrow> map_of ms k | _ \<Rightarrow> None)"

fun truthy :: "json \<Rightarrow> bool" where
  "truthy JNull = False"
| "truthy (JBool b) = b"
| "truthy (JNum t) = (t \<noteq> ''0'')"
| "truthy (JStr s) = (s \<noteq> [])"
| "truthy (JArr xs) = True"
| "truthy (JObj ms) = True"

fun is_array :: "json \<Rightarrow> bool" where
  "is_array (JArr xs) = True"
| "is_array v = False"

text \<open>\<open>typeof v === 'object'\<close>.\<close>

fun typeof_object :: "json \<Rightarrow> bool" where
  "typeof_object JNull = True"
| "typeof_object (JArr xs) = True"
| "typeof_object (JObj ms) = True"
| "typeof_object v = False"

text \<open>\<open>Object.keys(v).length\<close>.\<close>

fun keys_length :: "json \<Rightarrow> nat" where
  "keys_length (JObj ms) = length ms"
| "keys_length (JArr xs) = length xs"
| "keys_length (JStr s) = length s"
| "keys_length v = 0"

fun show_nat :: "nat \<Rightarrow> string" where
  "show_nat n =
     (if n < 10 then [char_of (48 + n)]
      else show_nat (n div 10) @ [char_of (48 + n mod 10)])"

declare show_nat.simps [simp del]

subsection \<open>truncateExecutionItem and truncateResponse\<close>

definition MAX_RESPONSE_TOKENS :: nat where
  "MAX_RESPONSE_TOKENS = 8000"

definition TRUNCATION_MESSAGE :: string where
  "TRUNCATION_MESSAGE =
     [CHR 0x0A, CHR 0x0A]
     @ ''[Response truncated due to size limits. Use more specific filtering or pagination to get complete data.]''"

text \<open>
  \<open>Math.ceil(text.length / 3.5)\<close>: the quotient \<open>2 * length / 7\<close> rounded up. The
  floating-point division is exact enough for this at every length a string can have.
\<close>

definition estimateTokenCount :: "string \<Rightarrow> nat" where
  "estimateTokenCount text = (2 * length text + 6) div 7"

text \<open>
  The object literal of \<open>truncateExecutionItem\<close>: the properties whose value is
  \<open>undefined\<close> are left out, as \<open>JSON.stringify\<close> leaves them out.
\<close>

definition pick :: "json \<Rightarrow> string list \<Rightarrow> (string \<times> json) list" where
  "pick v ks = concat (map (\<lambda>k. case get_prop v k of None \<Rightarrow> [] | Some x \<Rightarrow> [(k, x)]) ks)"

definition hasResults :: "json \<Rightarrow> nat" where
  "hasResults data =
     (case get_prop data ''resultData'' of
        None \<Rightarrow> 0
      | Some resultData \<Rightarrow>
          (case (if resultData = JNull then None else get_prop resultData ''runData'') of
             None \<Rightarrow> 0
           | Some runData \<Rightarrow> if truthy runData then keys_length runData else 0))"

definition truncateExecutionItem :: "json \<Rightarrow> json" where
  "truncateExecutionItem execution =
     (if \<not> truthy execution then execution
      else
        (let truncated =
               pick execution [''id'', ''mode'', ''status'', ''startedAt'', ''stoppedAt'',
                               ''workflowId'', ''waitTill'']
         in case get_prop execution ''data'' of
              None \<Rightarrow> JObj truncated
            | Some data \<Rightarrow>
                if truthy data \<and> typeof_object data
                then JObj (truncated @
                        [(''dataSummary'', JStr (show_nat (hasResults data) @ '' nodes executed''))])
                else JObj truncated))"

text \<open>
  \<open>{...obj, data: ...}\<close>: the members of \<open>obj\<close> in their order, \<open>data\<close> replaced where it
  stands.
\<close>

definition truncatedObj :: "json \<Rightarrow> json list \<Rightarrow> json" where
  "truncatedObj obj items =
     (case obj of
        JObj ms \<Rightarrow> JObj (AList.update ''data'' (JArr (map truncateExecutionItem items)) ms)
      | _ \<Rightarrow> JObj [(''data'', JArr (map truncateExecutionItem items))])"

definition truncateResponse :: "json \<Rightarrow> string" where
  "truncateResponse obj =
     (let jsonString = stringify obj;
          tokenCount = estimateTokenCount jsonString;
          maxLength = MAX_RESPONSE_TOKENS * 4
      in if tokenCount \<le> MAX_RESPONSE_TOKENS then jsonString
         else
           (case get_prop obj ''data'' of
              Some (JArr items) \<Rightarrow>
                (let truncatedString = stringify (truncatedObj obj items)
                 in if estimateTokenCount truncatedString \<le> MAX_RESPONSE_TOKENS
                    then truncatedString @ TRUNCATION_MESSAGE
                    else take maxLength jsonString @ TRUNCATION_MESSAGE)
            | _ \<Rightarrow> take maxLength jsonString @ TRUNCATION_MESSAGE))"

definition ends_with :: "string \<Rightarrow> string \<Rightarrow> bool" where
  "ends_with s marker =
     (length marker \<le> length s \<and> drop (length s - length marker) s = marker)"

section \<open>Auxiliary definitions for the proofs\<close>




subsection \<open>Failing requests, accepted objects and example states\<close>

text \<open>The request fails: the network, the status or the parse.\<close>

fun remote_fails :: "remote \<Rightarrow> bool" where
  "remote_fails (Json data) = False"
| "remote_fails r = True"

text \<open>
  The objects of a payload that the contract accepts, those with a non-empty \<open>name\<close>,
  each with the descriptor made from it, in payload order.
\<close>

definition accepted :: "(string \<times> api_node option) list \<Rightarrow> registry" where
  "accepted entries =
     concat (map (\<lambda>entry.
        case snd entry of
          None \<Rightarrow> []
        | Some node \<Rightarrow>
            (case api_node.name node of
               None \<Rightarrow> []
             | Some nm \<Rightarrow> if nm = [] then [] else [(nm, node_entry node nm)])) entries)"

definition fallback_names :: "string list" where
  "fallback_names =
     [''n8n-nodes-base.start'', ''n8n-nodes-base.manualTrigger'',
      ''n8n-nodes-base.httpRequest'', ''n8n-nodes-base.set'',
      ''n8n-nodes-base.function'', ''n8n-nodes-base.if'',
      ''n8n-nodes-base.switch'', ''n8n-nodes-base.merge'']"

text \<open>
  A validator whose registry holds one entry, fetched at time 0; a call at time
  4000000, more than an hour later, whose request fails; and one whose request delivers
  the empty object.
\<close>

definition populated :: validator where
  "populated =
     \<lparr> node_registry = [(''a.valid'', fallback_entry (''a.valid'', ''A''))],
       last_fetch_time = 0, is_fetching = False, fetch_promise = None, fetches = 0 \<rparr>"

definition failing_env :: env where
  "failing_env = \<lparr> at_call = 4000000, answer = FetchThrows, at_done = 4000005 \<rparr>"

definition empty_env :: env where
  "empty_env = \<lparr> at_call = 4000000, answer = Json (Some []), at_done = 4000005 \<rparr>"

text \<open>Three objects of a payload.\<close>

definition node_a :: api_node where
  "node_a = \<lparr> api_node.name = Some ''a'', displayName = Some '''',
              description = Some ''first'', group = Some [''input'', ''trigger''],
              version = Some 2 \<rparr>"

definition node_b :: api_node where
  "node_b = \<lparr> api_node.name = Some ''b'', displayName = Some ''Bee'',
              description = None, group = None, version = None \<rparr>"

definition node_unnamed :: api_node where
  "node_unnamed = \<lparr> api_node.name = None, displayName = Some ''Nobody'',
              description = None, group = None, version = None \<rparr>"

subsection \<open>Example batch\<close>



subsection \<open>The states the machine reaches\<close>

text \<open>
  Nothing is under way and the flag is down; or one request is out; or one promise is
  resolved and its starter has yet to resume; in the last two the flag is up and
  \<open>fetch_promise\<close> is that request.
\<close>

definition single_flight :: "sys \<Rightarrow> bool" where
  "single_flight s =
     (case (pending s, settled s) of
        ([], []) \<Rightarrow> \<not> is_fetching s \<and> fetch_promise s = None
      | ([p], []) \<Rightarrow> is_fetching s \<and> fetch_promise s = Some p
      | ([], [p]) \<Rightarrow> is_fetching s \<and> fetch_promise s = Some p
      | _ \<Rightarrow> False)"

subsection \<open>Example values\<close>

text \<open>
  A response of one execution whose run data holds a string of 28000 characters, and a
  small object.
\<close>

definition big_string :: string where
  "big_string = replicate 28000 (CHR ''x'')"

definition big_execution :: json where
  "big_execution =
     JObj [(''id'', JStr ''1''), (''status'', JStr ''success''),
           (''data'', JObj [(''resultData'',
                             JObj [(''runData'', JObj [(''node'', JStr big_string)])])])]"

definition big_response :: json where
  "big_response = JObj [(''data'', JArr [big_execution]), (''nextCursor'', JNull)]"

definition small_value :: json where
  "small_value = JObj [(''id'', JNum ''1'')]"

section \<open>The edit distance computed by levenshtein\_distance\<close>




















































section \<open>The suggestion\<close>





section \<open>The registry after a refresh\<close>

lemma try_fetch_fails:
  "remote_fails r \<Longrightarrow> \<exists>e. try_fetch r now v = (v, Some e)"
  by (cases r) (simp_all add: try_fetch_def)

lemma fetch_node_registry_Inr: "\<exists>v'. fetch_node_registry r now v = Inr v'"
  by (cases "try_fetch r now v") (auto simp: fetch_node_registry_def split: option.splits)

lemma ensure_Inr: "\<exists>v'. ensure_node_registry_is_loaded e v = Inr v'"
proof -
  let ?v1 = "v\<lparr>is_fetching := True, fetch_promise := Some (fetches v), fetches := fetches v + 1\<rparr>"
  obtain v2 where "fetch_node_registry (answer e) (at_done e) ?v1 = Inr v2"
    using fetch_node_registry_Inr by blast
  then show ?thesis
    by (simp add: ensure_node_registry_is_loaded_def Let_def)
qed

lemma fetch_fails_nonempty:
  assumes "remote_fails r" "node_registry v \<noteq> []"
  shows "fetch_node_registry r now v = Inr v"
proof -
  from try_fetch_fails[OF assms(1)] obtain e where "try_fetch r now v = (v, Some e)" by blast
  then show ?thesis using assms(2) by (simp add: fetch_node_registry_def)
qed

lemma fallback_registry:
  "node_registry v = [] \<Longrightarrow>
   node_registry (add_fallback_nodes v) = map (\<lambda>n. (fst n, fallback_entry n)) fallback_nodes"
  by (simp add: add_fallback_nodes_def fallback_nodes_def)

lemma fallback_keys: "map fst fallback_nodes = fallback_names"
  by (simp add: fallback_nodes_def fallback_names_def)

lemma fetch_fails_empty:
  assumes "remote_fails r" "node_registry v = []"
  shows "fetch_node_registry r now v = Inr ((add_fallback_nodes v)\<lparr>last_fetch_time := now\<rparr>)"
proof -
  from try_fetch_fails[OF assms(1)] obtain e where "try_fetch r now v = (v, Some e)" by blast
  then show ?thesis using assms(2) by (simp add: fetch_node_registry_def)
qed

lemma add_fallback_fields:
  "is_fetching (add_fallback_nodes v) = is_fetching v"
  "fetch_promise (add_fallback_nodes v) = fetch_promise v"
  "fetches (add_fallback_nodes v) = fetches v"
  "last_fetch_time (add_fallback_nodes v) = last_fetch_time v"
  by (simp_all add: add_fallback_nodes_def)

lemma ensure_fails_nonempty:
  assumes "remote_fails (answer e)" "node_registry v \<noteq> []"
  shows "\<exists>v'. ensure_node_registry_is_loaded e v = Inr v'
           \<and> node_registry v' = node_registry v \<and> last_fetch_time v' = last_fetch_time v"
proof -
  let ?v1 = "v\<lparr>is_fetching := True, fetch_promise := Some (fetches v), fetches := fetches v + 1\<rparr>"
  have "fetch_node_registry (answer e) (at_done e) ?v1 = Inr ?v1"
    using assms by (intro fetch_fails_nonempty) simp_all
  then show ?thesis
    by (simp add: ensure_node_registry_is_loaded_def Let_def)
qed

lemma ensure_fails_empty:
  assumes "remote_fails (answer e)" "node_registry v = []" "\<not> is_fetching v"
  shows "ensure_node_registry_is_loaded e v =
           Inr (v\<lparr>node_registry := map (\<lambda>n. (fst n, fallback_entry n)) fallback_nodes,
                  last_fetch_time := at_done e, fetches := fetches v + 1,
                  is_fetching := False, fetch_promise := None\<rparr>)"
proof -
  let ?v1 = "v\<lparr>is_fetching := True, fetch_promise := Some (fetches v), fetches := fetches v + 1\<rparr>"
  have "fetch_node_registry (answer e) (at_done e) ?v1
          = Inr ((add_fallback_nodes ?v1)\<lparr>last_fetch_time := at_done e\<rparr>)"
    using assms by (intro fetch_fails_empty) simp_all
  moreover have "node_registry (add_fallback_nodes ?v1) = map (\<lambda>n. (fst n, fallback_entry n)) fallback_nodes"
    using assms by (intro fallback_registry) simp
  ultimately show ?thesis
    using assms
    by (simp add: ensure_node_registry_is_loaded_def Let_def add_fallback_nodes_def)
qed

lemma update_nonempty: "AList.update k x reg \<noteq> []"
  by (cases reg) auto

lemma process_nodes_nonempty: "reg \<noteq> [] \<Longrightarrow> fst (process_nodes es reg) \<noteq> []"
  by (induction es reg rule: process_nodes.induct)
     (auto simp: update_nonempty split: option.splits)

lemma process_nodes_no_null:
  "\<forall>e\<in>set es. snd e \<noteq> None \<Longrightarrow>
   process_nodes es reg = (foldl (\<lambda>r kx. AList.update (fst kx) (snd kx) r) reg (accepted es), None)"
  by (induction es reg rule: process_nodes.induct)
     (auto simp: accepted_def split: option.splits)

lemma process_nodes_null:
  "\<exists>e\<in>set es. snd e = None \<Longrightarrow> snd (process_nodes es reg) = Some TypeError"
  by (induction es reg rule: process_nodes.induct) (auto split: option.splits)

lemma foldl_update_Nil_iff:
  "foldl (\<lambda>r kx. AList.update (fst kx) (snd kx) r) reg xs = [] \<longleftrightarrow> reg = [] \<and> xs = []"
  by (induction xs arbitrary: reg) (auto simp: update_nonempty)

lemma fallback_nonempty: "node_registry (add_fallback_nodes v) \<noteq> []"
  by (simp add: add_fallback_nodes_def fallback_nodes_def update_nonempty)

lemma fetch_registry_empty_iff:
  assumes "fetch_node_registry r now v = Inr v'"
  shows "node_registry v' = [] \<longleftrightarrow>
           (r = Json None \<or>
            (\<exists>es. r = Json (Some es) \<and> (\<forall>e\<in>set es. snd e \<noteq> None) \<and> accepted es = []))"
proof (cases r)
  case FetchThrows
  then show ?thesis using assms
    by (auto simp: fetch_node_registry_def try_fetch_def fallback_nonempty split: if_splits)
next
  case (NotOk st)
  then show ?thesis using assms
    by (auto simp: fetch_node_registry_def try_fetch_def fallback_nonempty split: if_splits)
next
  case JsonThrows
  then show ?thesis using assms
    by (auto simp: fetch_node_registry_def try_fetch_def fallback_nonempty split: if_splits)
next
  case (Json data)
  show ?thesis
  proof (cases data)
    case None
    then show ?thesis using assms Json
      by (auto simp: fetch_node_registry_def try_fetch_def)
  next
    case (Some es)
    show ?thesis
    proof (cases "\<forall>e\<in>set es. snd e \<noteq> None")
      case True
      from process_nodes_no_null[OF True, of "[]"] show ?thesis
        using assms Json Some True
        by (auto simp: fetch_node_registry_def try_fetch_def foldl_update_Nil_iff)
    next
      case False
      then have e: "snd (process_nodes es []) = Some TypeError"
        by (intro process_nodes_null) auto
      obtain reg where p: "process_nodes es [] = (reg, Some TypeError)"
        using e by (cases "process_nodes es []") auto
      have "node_registry v' \<noteq> []"
        using assms Json Some p
        by (auto simp: fetch_node_registry_def try_fetch_def fallback_nonempty split: if_splits)
      then show ?thesis using False Json Some by auto
    qed
  qed
qed

lemma map_of_foldl_update:
  "map_of (foldl (\<lambda>r kx. AList.update (fst kx) (snd kx) r) reg xs) = map_of (rev xs @ reg)"
proof (induction xs arbitrary: reg)
  case Nil
  show ?case by simp
next
  case (Cons x xs)
  show ?case
    by (rule ext) (simp add: Cons.IH map_add_def update_conv' split: option.splits)
qed

lemma distinct_foldl_update:
  "distinct (map fst reg) \<Longrightarrow>
   distinct (map fst (foldl (\<lambda>r kx. AList.update (fst kx) (snd kx) r) reg xs))"
  by (induction xs arbitrary: reg) (simp_all add: distinct_update)

lemma keys_foldl_update:
  "set (map fst (foldl (\<lambda>r kx. AList.update (fst kx) (snd kx) r) reg xs))
     = set (map fst reg) \<union> set (map fst xs)"
  by (induction xs arbitrary: reg) (auto simp: dom_update)

lemma update_fresh: "k \<notin> fst ` set reg \<Longrightarrow> AList.update k x reg = reg @ [(k, x)]"
  by (induction reg) auto

lemma foldl_update_distinct:
  "distinct (map fst (reg @ xs)) \<Longrightarrow>
   foldl (\<lambda>r kx. AList.update (fst kx) (snd kx) r) reg xs = reg @ xs"
proof (induction xs arbitrary: reg)
  case Nil
  show ?case by simp
next
  case (Cons x xs)
  have f: "fst x \<notin> fst ` set reg" using Cons.prems by auto
  have "AList.update (fst x) (snd x) reg = reg @ [x]"
    using update_fresh[OF f, of "snd x"] by simp
  moreover have "distinct (map fst ((reg @ [x]) @ xs))" using Cons.prems by simp
  ultimately show ?case using Cons.IH[of "reg @ [x]"] by simp
qed

text \<open>
  C3. \<open>ensure_node_registry_is_loaded\<close> resolves whatever the remote end answers. When
  the request fails (network, status, parse) a registry that holds data is served as it
  is, and an empty one receives the eight fallback entries, among them
  \<open>n8n-nodes-base.httpRequest\<close>; \<open>get_available_node_types\<close> then returns exactly
  the eight fallback names, also on later calls whose request fails again.
\<close>

theorem failed_fetch_never_raises:
  "(\<exists>v'. ensure_node_registry_is_loaded e v = Inr v')
   \<and> (remote_fails (answer e) \<longrightarrow> node_registry v \<noteq> [] \<longrightarrow>
        (\<exists>v'. ensure_node_registry_is_loaded e v = Inr v'
              \<and> node_registry v' = node_registry v))
   \<and> (remote_fails (answer e) \<longrightarrow> node_registry v = [] \<longrightarrow> \<not> is_fetching v \<longrightarrow>
        (\<exists>v'. ensure_node_registry_is_loaded e v = Inr v'
              \<and> map_keys (node_registry v') = fallback_names
              \<and> length (node_registry v') = 8
              \<and> map_has (node_registry v') ''n8n-nodes-base.httpRequest''
              \<and> get_available_node_types e v = Inr (fallback_names, v')
              \<and> (\<forall>e2. remote_fails (answer e2) \<longrightarrow>
                    (\<exists>v2. get_available_node_types e2 v' = Inr (fallback_names, v2)))))"
proof (intro conjI impI)
  show "\<exists>v'. ensure_node_registry_is_loaded e v = Inr v'" by (rule ensure_Inr)
next
  assume "remote_fails (answer e)" "node_registry v \<noteq> []"
  from ensure_fails_nonempty[OF this]
  show "\<exists>v'. ensure_node_registry_is_loaded e v = Inr v' \<and> node_registry v' = node_registry v"
    by blast
next
  assume a: "remote_fails (answer e)" "node_registry v = []" "\<not> is_fetching v"
  let ?reg = "map (\<lambda>n. (fst n, fallback_entry n)) fallback_nodes"
  let ?v' = "v\<lparr>node_registry := ?reg, last_fetch_time := at_done e, fetches := fetches v + 1,
                is_fetching := False, fetch_promise := None\<rparr>"
  have r: "ensure_node_registry_is_loaded e v = Inr ?v'" by (rule ensure_fails_empty[OF a])
  have k: "map_keys (node_registry ?v') = fallback_names"
    using fallback_keys by (simp add: map_keys_def comp_def)
  have l: "length (node_registry ?v') = 8" by (simp add: fallback_nodes_def)
  have h: "map_has (node_registry ?v') ''n8n-nodes-base.httpRequest''"
    by (simp add: map_has_def fallback_nodes_def)
  have g: "get_available_node_types e v = Inr (fallback_names, ?v')"
    using r k by (simp add: get_available_node_types_def)
  have later: "\<forall>e2. remote_fails (answer e2) \<longrightarrow>
                 (\<exists>v2. get_available_node_types e2 ?v' = Inr (fallback_names, v2))"
  proof (intro allI impI)
    fix e2 :: env assume f2: "remote_fails (answer e2)"
    have ne: "node_registry ?v' \<noteq> []" by (simp add: fallback_nodes_def)
    from ensure_fails_nonempty[of e2 ?v'] f2 ne obtain v2 where
      "ensure_node_registry_is_loaded e2 ?v' = Inr v2" "node_registry v2 = node_registry ?v'"
      by blast
    then show "\<exists>v2. get_available_node_types e2 ?v' = Inr (fallback_names, v2)"
      using k by (simp add: get_available_node_types_def map_keys_def)
  qed
  show "\<exists>v'. ensure_node_registry_is_loaded e v = Inr v'
              \<and> map_keys (node_registry v') = fallback_names
              \<and> length (node_registry v') = 8
              \<and> map_has (node_registry v') ''n8n-nodes-base.httpRequest''
              \<and> get_available_node_types e v = Inr (fallback_names, v')
              \<and> (\<forall>e2. remote_fails (answer e2) \<longrightarrow>
                    (\<exists>v2. get_available_node_types e2 v' = Inr (fallback_names, v2)))"
    using r k l h g later by blast
qed

theorem failed_fetch_never_raises_witness:
  "remote_fails (answer failing_env) \<and> node_registry new_validator = []
   \<and> \<not> is_fetching new_validator
   \<and> map_sum id fst (get_available_node_types failing_env new_validator)
       = Inr [''n8n-nodes-base.start'', ''n8n-nodes-base.manualTrigger'',
              ''n8n-nodes-base.httpRequest'', ''n8n-nodes-base.set'',
              ''n8n-nodes-base.function'', ''n8n-nodes-base.if'',
              ''n8n-nodes-base.switch'', ''n8n-nodes-base.merge'']
   \<and> node_registry populated \<noteq> []
   \<and> map_sum id node_registry (ensure_node_registry_is_loaded failing_env populated)
       = Inr (node_registry populated)"
proof -
  have a: "remote_fails (answer failing_env)" by (simp add: failing_env_def)
  have b: "node_registry new_validator = []" by (simp add: new_validator_def)
  have c: "\<not> is_fetching new_validator" by (simp add: new_validator_def)
  have d: "node_registry populated \<noteq> []" by (simp add: populated_def)
  from failed_fetch_never_raises[of failing_env new_validator] a b c
  obtain v' where 1: "get_available_node_types failing_env new_validator = Inr (fallback_names, v')"
    by blast
  from failed_fetch_never_raises[of failing_env populated] a d
  obtain v2 where 2: "ensure_node_registry_is_loaded failing_env populated = Inr v2"
    "node_registry v2 = node_registry populated"
    by blast
  show ?thesis using a b c d 1 2 by (simp add: fallback_names_def)
qed

text \<open>
  C4, as the code has it. When the request fails and the registry holds data, the
  registry is left as it was, and so is \<open>last_fetch_time\<close>: the time is stamped only
  when the payload was processed or the fallback was installed. The cache thus stays
  stale and the next call asks again.
\<close>

theorem failed_fetch_keeps_registry_and_time:
  "remote_fails (answer e) \<longrightarrow> node_registry v \<noteq> [] \<longrightarrow>
     fetch_node_registry (answer e) (at_done e) v = Inr v
   \<and> (\<exists>v'. ensure_node_registry_is_loaded e v = Inr v'
          \<and> node_registry v' = node_registry v
          \<and> last_fetch_time v' = last_fetch_time v)"
  using fetch_fails_nonempty[of "answer e" v "at_done e"] ensure_fails_nonempty[of e v]
  by blast

theorem failed_fetch_keeps_registry_and_time_witness:
  "remote_fails (answer failing_env) \<and> node_registry populated \<noteq> []
   \<and> fetch_node_registry (answer failing_env) (at_done failing_env) populated = Inr populated"
proof -
  have a: "remote_fails (answer failing_env)" by (simp add: failing_env_def)
  have b: "node_registry populated \<noteq> []" by (simp add: populated_def)
  from failed_fetch_keeps_registry_and_time[of failing_env populated] a b
  show ?thesis by blast
qed

text \<open>
  The claim as stated fails: the registry holds data, the cache is stale, the request
  fails and is over at time 4000005, and \<open>last_fetch_time\<close> is still 0.
\<close>

theorem failed_fetch_time_not_updated:
  "remote_fails (answer failing_env) \<and> node_registry populated \<noteq> []
   \<and> ensure_node_registry_is_loaded failing_env populated = Inr (populated\<lparr>fetches := 1\<rparr>)
   \<and> last_fetch_time (populated\<lparr>fetches := 1\<rparr>) = 0
   \<and> at_done failing_env = 4000005"
  by (simp add: failing_env_def populated_def ensure_node_registry_is_loaded_def
                fetch_node_registry_def try_fetch_def CACHE_DURATION_def)

text \<open>
  C9, as the code has it. After a refresh the registry is empty exactly when the payload
  arrived and held no object with a non-empty name (or was not an object at all): a
  successful refresh replaces the registry by what the payload holds, which may be
  nothing. A refresh that fails never leaves the registry empty, and a failed request
  leaves a registry that holds data as it was.
\<close>

theorem registry_empty_only_after_empty_payload:
  "fetch_node_registry r now v = Inr v' \<longrightarrow>
     (node_registry v' = [] \<longleftrightarrow>
        (r = Json None \<or>
         (\<exists>es. r = Json (Some es) \<and> (\<forall>e\<in>set es. snd e \<noteq> None) \<and> accepted es = [])))
   \<and> (remote_fails r \<longrightarrow> node_registry v' \<noteq> [])
   \<and> (remote_fails r \<longrightarrow> node_registry v \<noteq> [] \<longrightarrow> node_registry v' = node_registry v)"
proof (intro impI conjI)
  assume a: "fetch_node_registry r now v = Inr v'"
  show "node_registry v' = [] \<longleftrightarrow>
        (r = Json None \<or>
         (\<exists>es. r = Json (Some es) \<and> (\<forall>e\<in>set es. snd e \<noteq> None) \<and> accepted es = []))"
    by (rule fetch_registry_empty_iff[OF a])
  {
    assume f: "remote_fails r"
    show "node_registry v' \<noteq> []"
      using fetch_registry_empty_iff[OF a] f by (cases r) auto
    assume "node_registry v \<noteq> []"
    from fetch_fails_nonempty[OF f this, of now] a
    show "node_registry v' = node_registry v" by simp
  }
qed

theorem registry_empty_only_after_empty_payload_witness:
  "fetch_node_registry FetchThrows 4000005 populated = Inr populated
   \<and> remote_fails FetchThrows
   \<and> node_registry populated \<noteq> []
   \<and> fetch_node_registry (Json (Some [(''k'', Some node_unnamed)])) 4000005 populated
       = Inr (populated\<lparr>node_registry := [], last_fetch_time := 4000005\<rparr>)
   \<and> accepted [(''k'', Some node_unnamed)] = []
   \<and> node_registry (populated\<lparr>node_registry := [], last_fetch_time := 4000005\<rparr>) = []"
proof -
  have a: "fetch_node_registry FetchThrows 4000005 populated = Inr populated"
    by (simp add: fetch_node_registry_def try_fetch_def populated_def)
  have b: "remote_fails FetchThrows" by simp
  from registry_empty_only_after_empty_payload[of FetchThrows 4000005 populated populated] a b
  have 1: "node_registry populated \<noteq> []" by blast
  let ?es = "[(''k'', Some node_unnamed)]"
  let ?v' = "populated\<lparr>node_registry := [], last_fetch_time := 4000005\<rparr>"
  have c: "fetch_node_registry (Json (Some ?es)) 4000005 populated = Inr ?v'"
    by (simp add: fetch_node_registry_def try_fetch_def node_unnamed_def)
  have d: "accepted ?es = []" by (simp add: accepted_def node_unnamed_def)
  have e: "\<forall>e\<in>set ?es. snd e \<noteq> None" by simp
  from registry_empty_only_after_empty_payload[of "Json (Some ?es)" 4000005 populated ?v'] c d e
  have 2: "node_registry ?v' = []" by blast
  show ?thesis using a b 1 c d 2 by simp
qed

text \<open>
  The claim as stated fails: the registry holds data, the cache is stale, the request
  succeeds with the payload \<open>{}\<close>, and the registry is empty afterwards.
\<close>

theorem refresh_with_empty_payload_empties_registry:
  "node_registry populated \<noteq> []
   \<and> ensure_node_registry_is_loaded empty_env populated
       = Inr (populated\<lparr>node_registry := [], last_fetch_time := 4000005, fetches := 1\<rparr>)"
  by (simp add: empty_env_def populated_def ensure_node_registry_is_loaded_def
                fetch_node_registry_def try_fetch_def CACHE_DURATION_def)

lemma fetch_payload:
  assumes "\<forall>e\<in>set entries. snd e \<noteq> None"
  shows "fetch_node_registry (Json (Some entries)) now v
           = Inr (v\<lparr>node_registry :=
                       foldl (\<lambda>r kx. AList.update (fst kx) (snd kx) r) [] (accepted entries),
                     last_fetch_time := now\<rparr>)"
  using process_nodes_no_null[OF assms, of "[]"]
  by (simp add: fetch_node_registry_def try_fetch_def)

text \<open>
  C8, as the code has it. From a payload whose values are objects the refresh stores
  the objects with a non-empty \<open>name\<close>, under that name, and skips the others: each key
  of the registry is such a name, the entry under a name is made from the last object
  carrying it, and when the names differ the registry is the list of these entries in
  payload order. \<open>display_name\<close> is \<open>displayName\<close> when that is present and not empty,
  the name otherwise; \<open>description\<close> and \<open>version\<close> are passed on and \<open>group\<close> is joined
  with \<open>", "\<close>.
\<close>

theorem payload_objects_with_name_are_stored:
  "(\<forall>e\<in>set entries. snd e \<noteq> None) \<longrightarrow>
     (\<exists>v'. fetch_node_registry (Json (Some entries)) now v = Inr v'
        \<and> last_fetch_time v' = now
        \<and> map_of (node_registry v') = map_of (rev (accepted entries))
        \<and> distinct (map_keys (node_registry v'))
        \<and> set (map_keys (node_registry v')) = set (map fst (accepted entries))
        \<and> (distinct (map fst (accepted entries)) \<longrightarrow> node_registry v' = accepted entries))
   \<and> (\<forall>n nm. node_info.name (node_entry n nm) = nm
        \<and> display_name (node_entry n nm)
            = (if displayName n = None \<or> displayName n = Some [] then nm
               else the (displayName n))
        \<and> node_info.description (node_entry n nm) = api_node.description n
        \<and> node_info.type (node_entry n nm) = map_option (join_strings '', '') (group n)
        \<and> node_info.version (node_entry n nm) = api_node.version n)"
proof (intro conjI impI allI)
  assume a: "\<forall>e\<in>set entries. snd e \<noteq> None"
  let ?reg = "foldl (\<lambda>r kx. AList.update (fst kx) (snd kx) r) [] (accepted entries)"
  let ?v' = "v\<lparr>node_registry := ?reg, last_fetch_time := now\<rparr>"
  have 1: "fetch_node_registry (Json (Some entries)) now v = Inr ?v'" by (rule fetch_payload[OF a])
  have 2: "map_of ?reg = map_of (rev (accepted entries))"
    using map_of_foldl_update[of "[]" "accepted entries"] by simp
  have 3: "distinct (map_keys ?reg)"
    using distinct_foldl_update[of "[]" "accepted entries"] by (simp add: map_keys_def)
  have 4: "set (map_keys ?reg) = set (map fst (accepted entries))"
    using keys_foldl_update[of "[]" "accepted entries"] by (simp add: map_keys_def)
  have 5: "distinct (map fst (accepted entries)) \<longrightarrow> ?reg = accepted entries"
    using foldl_update_distinct[of "[]" "accepted entries"] by simp
  show "\<exists>v'. fetch_node_registry (Json (Some entries)) now v = Inr v'
        \<and> last_fetch_time v' = now
        \<and> map_of (node_registry v') = map_of (rev (accepted entries))
        \<and> distinct (map_keys (node_registry v'))
        \<and> set (map_keys (node_registry v')) = set (map fst (accepted entries))
        \<and> (distinct (map fst (accepted entries)) \<longrightarrow> node_registry v' = accepted entries)"
    by (rule exI[of _ ?v']) (use 1 2 3 4 5 in simp)
next
  fix n nm
  show "node_info.name (node_entry n nm) = nm" by (simp add: node_entry_def)
  show "display_name (node_entry n nm)
            = (if displayName n = None \<or> displayName n = Some [] then nm
               else the (displayName n))"
    by (auto simp: node_entry_def split: option.splits)
  show "node_info.description (node_entry n nm) = api_node.description n"
    by (simp add: node_entry_def)
  show "node_info.type (node_entry n nm) = map_option (join_strings '', '') (group n)"
    by (simp add: node_entry_def split: option.splits)
  show "node_info.version (node_entry n nm) = api_node.version n"
    by (simp add: node_entry_def)
qed

theorem payload_objects_with_name_are_stored_witness:
  "snd (''k1'', Some node_b) \<noteq> None \<and> snd (''k2'', Some node_unnamed) \<noteq> None
   \<and> accepted [(''k1'', Some node_b), (''k2'', Some node_unnamed)]
       = [(''b'', \<lparr> node_info.name = ''b'', display_name = ''Bee'', description = None,
                   type = None, version = None \<rparr>)]
   \<and> map_sum id node_registry
        (fetch_node_registry (Json (Some [(''k1'', Some node_b), (''k2'', Some node_unnamed)]))
           7 new_validator)
       = Inr [(''b'', \<lparr> node_info.name = ''b'', display_name = ''Bee'', description = None,
                         type = None, version = None \<rparr>)]"
proof -
  let ?es = "[(''k1'', Some node_b), (''k2'', Some node_unnamed)]"
  have a: "\<forall>e\<in>set ?es. snd e \<noteq> None" by simp
  have b: "accepted ?es
       = [(''b'', \<lparr> node_info.name = ''b'', display_name = ''Bee'', description = None,
                   type = None, version = None \<rparr>)]"
    by (simp add: accepted_def node_b_def node_unnamed_def node_entry_def)
  have d: "distinct (map fst (accepted ?es))" using b by simp
  from payload_objects_with_name_are_stored[of ?es 7 new_validator] a d
  obtain v' where "fetch_node_registry (Json (Some ?es)) 7 new_validator = Inr v'"
    "node_registry v' = accepted ?es"
    by blast
  then show ?thesis using b by simp
qed

text \<open>
  The claim as stated fails where \<open>displayName\<close> is present and empty: the stored
  \<open>display_name\<close> is the name \<open>a\<close>, not the \<open>displayName\<close> of the object.
\<close>

theorem empty_displayName_defaults_to_name:
  "displayName node_a = Some ''''
   \<and> map_sum id node_registry
        (fetch_node_registry (Json (Some [(''k'', Some node_a)])) 7 new_validator)
       = Inr [(''a'', \<lparr> node_info.name = ''a'', display_name = ''a'',
                         description = Some ''first'', type = Some ''input, trigger'',
                         version = Some 2 \<rparr>)]"
  by (simp add: node_a_def fetch_node_registry_def try_fetch_def node_entry_def
                join_strings_def new_validator_def)

section \<open>Validating a batch of nodes\<close>

lemma fetch_node_registry_fields:
  assumes "fetch_node_registry r now v = Inr v'"
  shows "fetches v' = fetches v" "is_fetching v' = is_fetching v" "fetch_promise v' = fetch_promise v"
  using assms
  by (auto simp: fetch_node_registry_def try_fetch_def add_fallback_nodes_def
           split: remote.splits option.splits prod.splits if_splits)


lemma ensure_fresh: "\<not> stale v (at_call e) \<Longrightarrow> ensure_node_registry_is_loaded e v = Inr v"
  by (simp add: ensure_node_registry_is_loaded_def stale_def Let_def)











section \<open>Interleaved callers share one request\<close>

lemma single_flight_cases:
  "single_flight s \<longleftrightarrow>
     (pending s = [] \<and> settled s = [] \<and> \<not> is_fetching s \<and> fetch_promise s = None)
   \<or> (\<exists>p. pending s = [p] \<and> settled s = [] \<and> is_fetching s \<and> fetch_promise s = Some p)
   \<or> (\<exists>p. pending s = [] \<and> settled s = [p] \<and> is_fetching s \<and> fetch_promise s = Some p)"
  by (auto simp: single_flight_def split: list.splits)

lemma single_flight_new: "single_flight new_sys"
  by (simp add: single_flight_def new_sys_def)

lemma step_Call_joins:
  assumes "is_fetching s" "fetch_promise s = Some p"
  shows "step (Call c now) s = Some (s\<lparr>handed := handed s @ [(c, p)]\<rparr>)"
  using assms by simp

lemma step_Call_starts:
  assumes "\<not> is_fetching s" "stale s now"
  shows "step (Call c now) s =
           Some (s\<lparr>is_fetching := True, fetch_promise := Some (fetches s),
                   fetches := fetches s + 1, pending := pending s @ [fetches s],
                   handed := handed s @ [(c, fetches s)]\<rparr>)"
  using assms by (auto simp: stale_def)

lemma step_single_flight:
  assumes "single_flight s" "step ev s = Some s'"
  shows "single_flight s'"
proof (cases ev)
  case (Call c now)
  then show ?thesis using assms
    by (auto simp: single_flight_cases split: if_splits)
next
  case (Settle p r now)
  with assms(2) have p: "p \<in> set (pending s)" by (auto split: if_splits)
  with assms(1) have ps: "pending s = [p]" "settled s = []" "is_fetching s" "fetch_promise s = Some p"
    by (auto simp: single_flight_cases)
  obtain v' where f: "fetch_node_registry r now s = Inr v'"
    using fetch_node_registry_Inr by blast
  from fetch_node_registry_fields[OF f] ps f assms(2) Settle
  show ?thesis by (auto simp: single_flight_cases)
next
  case (Resume p)
  with assms(2) have p: "p \<in> set (settled s)" by (auto split: if_splits)
  with assms(1) have ps: "pending s = []" "settled s = [p]"
    by (auto simp: single_flight_cases)
  then show ?thesis using assms(2) Resume by (auto simp: single_flight_cases split: if_splits)
qed

lemma run_single_flight:
  "single_flight s \<Longrightarrow> run es s = Some s' \<Longrightarrow> single_flight s'"
proof (induction es arbitrary: s)
  case Nil
  then show ?case by simp
next
  case (Cons ev es)
  then obtain s1 where s1: "step ev s = Some s1" "run es s1 = Some s'"
    by (auto split: option.splits)
  from step_single_flight[OF Cons.prems(1) s1(1)] Cons.IH s1(2) show ?case by blast
qed

lemma run_append:
  "run (es @ fs) s = (case run es s of None \<Rightarrow> None | Some s' \<Rightarrow> run fs s')"
  by (induction es arbitrary: s) (auto split: option.splits)

lemma run_calls_join:
  assumes "is_fetching s" "fetch_promise s = Some p"
  shows "run (calls cs) s = Some (s\<lparr>handed := handed s @ map (\<lambda>c. (c, p)) (map fst cs)\<rparr>)"
  using assms
proof (induction cs arbitrary: s)
  case Nil
  show ?case by (simp add: calls_def)
next
  case (Cons x cs)
  obtain c now where x: "x = (c, now)" by (cases x)
  let ?s1 = "s\<lparr>handed := handed s @ [(c, p)]\<rparr>"
  have "run (calls cs) ?s1 = Some (?s1\<lparr>handed := handed ?s1 @ map (\<lambda>c. (c, p)) (map fst cs)\<rparr>)"
    using Cons.prems by (intro Cons.IH) simp_all
  then show ?case using Cons.prems x by (simp add: calls_def)
qed

lemma fetch_node_registry_frame:
  fixes s :: sys
  shows "fetch_node_registry r now
           (s\<lparr>is_fetching := a, fetch_promise := b, fetches := c, pending := d, handed := e\<rparr>)
         = map_sum id
             (\<lambda>v. v\<lparr>is_fetching := a, fetch_promise := b, fetches := c, pending := d, handed := e\<rparr>)
             (fetch_node_registry r now s)"
  by (auto simp: fetch_node_registry_def try_fetch_def add_fallback_nodes_def
           split: remote.splits option.splits prod.splits)

lemma burst_starts_one_request:
  assumes sf: "single_flight s" and i: "idle s" and st: "stale s now"
  shows "run (Call c now # calls cs) s =
           Some (s\<lparr>is_fetching := True, fetch_promise := Some (fetches s),
                   fetches := fetches s + 1, pending := [fetches s],
                   handed := handed s @ map (\<lambda>c. (c, fetches s)) (c # map fst cs)\<rparr>)"
proof -
  have nf: "\<not> is_fetching s" "pending s = []"
    using sf i by (auto simp: single_flight_cases idle_def)
  let ?s1 = "s\<lparr>is_fetching := True, fetch_promise := Some (fetches s),
                fetches := fetches s + 1, pending := pending s @ [fetches s],
                handed := handed s @ [(c, fetches s)]\<rparr>"
  have 1: "step (Call c now) s = Some ?s1" by (rule step_Call_starts[OF nf(1) st])
  have 2: "run (calls cs) ?s1 =
             Some (?s1\<lparr>handed := handed ?s1 @ map (\<lambda>c. (c, fetches s)) (map fst cs)\<rparr>)"
    by (intro run_calls_join) simp_all
  show ?thesis using 1 2 nf(2) by simp
qed

lemma burst_settles_once:
  assumes sf: "single_flight s" and i: "idle s" and st: "stale s now"
    and f: "fetch_node_registry r t s = Inr v'"
  shows "run (Call c now # calls cs @ [Settle (fetches s) r t] @ calls cs' @ [Resume (fetches s)]) s =
           Some (v'\<lparr>is_fetching := False, fetch_promise := None,
                    fetches := fetches s + 1, pending := [], settled := [],
                    handed := handed s @ map (\<lambda>c. (c, fetches s)) (c # map fst cs @ map fst cs')\<rparr>)"
proof -
  let ?n = "fetches s"
  let ?H = "handed s @ map (\<lambda>c. (c, ?n)) (c # map fst cs)"
  let ?s1 = "s\<lparr>is_fetching := True, fetch_promise := Some ?n,
                fetches := ?n + 1, pending := [?n], handed := ?H\<rparr>"
  have se: "settled s = []" using i by (simp add: idle_def)
  have 1: "run (Call c now # calls cs) s = Some ?s1"
    by (rule burst_starts_one_request[OF sf i st])
  let ?v1 = "v'\<lparr>is_fetching := True, fetch_promise := Some ?n,
                fetches := ?n + 1, pending := [?n], handed := ?H\<rparr>"
  have fr: "fetch_node_registry r t ?s1 = Inr ?v1"
    using fetch_node_registry_frame[where r = r and now = t and s = s and a = True
            and b = "Some ?n" and c = "?n + 1" and d = "[?n]" and e = ?H] f
    by simp
  have sv: "settled v' = settled s"
    using f by (auto simp: fetch_node_registry_def try_fetch_def add_fallback_nodes_def
                     split: remote.splits option.splits prod.splits if_splits)
  let ?s2 = "?v1\<lparr>pending := [], settled := [?n]\<rparr>"
  have 2: "step (Settle ?n r t) ?s1 = Some ?s2"
    using fr se by simp
  let ?s3 = "?s2\<lparr>handed := handed ?s2 @ map (\<lambda>c. (c, ?n)) (map fst cs')\<rparr>"
  have 3: "run (calls cs') ?s2 = Some ?s3"
    by (intro run_calls_join) simp_all
  have 4: "step (Resume ?n) ?s3 =
             Some (?s3\<lparr>is_fetching := False, fetch_promise := None, settled := []\<rparr>)"
    by simp
  have "run (Call c now # calls cs @ [Settle ?n r t] @ calls cs' @ [Resume ?n]) s
          = run ((Call c now # calls cs) @ [Settle ?n r t] @ calls cs' @ [Resume ?n]) s"
    by simp
  also have "\<dots> = run ([Settle ?n r t] @ calls cs' @ [Resume ?n]) ?s1"
    using 1 by (simp only: run_append option.case)
  also have "\<dots> = run (calls cs' @ [Resume ?n]) ?s2"
    using 2 by simp
  also have "\<dots> = run [Resume ?n] ?s3"
    using 3 by (simp only: run_append option.case)
  also have "\<dots> = Some (?s3\<lparr>is_fetching := False, fetch_promise := None, settled := []\<rparr>)"
    using 4 by simp
  finally show ?thesis by simp
qed

text \<open>
  C1. In every state the machine reaches from a new validator at most one request is
  out. A caller that arrives while a request is out, or while its promise is resolved
  and the starter has not yet resumed, is handed that promise and nothing else changes:
  no request is sent. From a state with nothing under way in which the cache is stale,
  a burst of callers sends exactly one request and hands all of them its promise; when
  the request has settled, whoever arrives before the starter resumes is handed the
  same promise, and after the starter has resumed the count of requests has grown by
  one and the registry is what \<open>fetch_node_registry\<close> made of the one answer.
\<close>

theorem single_flight_refresh:
  "run es new_sys = Some s \<longrightarrow>
     length (pending s) \<le> 1
   \<and> (\<forall>p c now. pending s = [p] \<or> settled s = [p] \<longrightarrow>
         step (Call c now) s = Some (s\<lparr>handed := handed s @ [(c, p)]\<rparr>))
   \<and> (idle s \<longrightarrow> stale s now \<longrightarrow>
        (\<exists>s1. run (Call c now # calls cs) s = Some s1
            \<and> fetches s1 = fetches s + 1
            \<and> pending s1 = [fetches s]
            \<and> handed s1 = handed s @ map (\<lambda>c. (c, fetches s)) (c # map fst cs)
            \<and> node_registry s1 = node_registry s)
      \<and> (\<exists>s2 v'. run (Call c now # calls cs @ [Settle (fetches s) r t] @ calls cs'
                        @ [Resume (fetches s)]) s = Some s2
            \<and> fetches s2 = fetches s + 1
            \<and> idle s2
            \<and> handed s2 = handed s @ map (\<lambda>c. (c, fetches s)) (c # map fst cs @ map fst cs')
            \<and> fetch_node_registry r t s = Inr v'
            \<and> node_registry s2 = node_registry v'
            \<and> last_fetch_time s2 = last_fetch_time v'))"
proof (intro impI conjI allI)
  assume reach: "run es new_sys = Some s"
  have sf: "single_flight s" by (rule run_single_flight[OF single_flight_new reach])
  show "length (pending s) \<le> 1" using sf by (auto simp: single_flight_cases)
  {
    fix p c now assume "pending s = [p] \<or> settled s = [p]"
    then have "is_fetching s \<and> fetch_promise s = Some p"
      using sf by (auto simp: single_flight_cases)
    then show "step (Call c now) s = Some (s\<lparr>handed := handed s @ [(c, p)]\<rparr>)"
      by simp
  }
  {
    assume i: "idle s" and st: "stale s now"
    from burst_starts_one_request[OF sf i st, of c cs]
    show "\<exists>s1. run (Call c now # calls cs) s = Some s1
            \<and> fetches s1 = fetches s + 1
            \<and> pending s1 = [fetches s]
            \<and> handed s1 = handed s @ map (\<lambda>c. (c, fetches s)) (c # map fst cs)
            \<and> node_registry s1 = node_registry s"
      by simp
    obtain v' where f: "fetch_node_registry r t s = Inr v'"
      using fetch_node_registry_Inr by blast
    from burst_settles_once[OF sf i st f, of c cs cs'] f
    show "\<exists>s2 v'. run (Call c now # calls cs @ [Settle (fetches s) r t] @ calls cs'
                        @ [Resume (fetches s)]) s = Some s2
            \<and> fetches s2 = fetches s + 1
            \<and> idle s2
            \<and> handed s2 = handed s @ map (\<lambda>c. (c, fetches s)) (c # map fst cs @ map fst cs')
            \<and> fetch_node_registry r t s = Inr v'
            \<and> node_registry s2 = node_registry v'
            \<and> last_fetch_time s2 = last_fetch_time v'"
      by (simp add: idle_def)
  }
qed

theorem single_flight_refresh_witness:
  "run [] new_sys = Some new_sys \<and> idle new_sys \<and> stale new_sys 10
   \<and> map_option fetches (run (Call 1 10 # calls [(2, 11), (3, 12)]) new_sys) = Some 1
   \<and> map_option pending (run (Call 1 10 # calls [(2, 11), (3, 12)]) new_sys) = Some [0]
   \<and> map_option handed (run (Call 1 10 # calls [(2, 11), (3, 12)]) new_sys)
       = Some [(1, 0), (2, 0), (3, 0)]"
proof -
  have a: "run [] new_sys = Some new_sys" by simp
  have b: "idle new_sys" by (simp add: idle_def new_sys_def)
  have c: "stale new_sys 10" by (simp add: stale_def new_sys_def)
  from single_flight_refresh[of "[]" new_sys 10 1 "[(2, 11), (3, 12)]"] a b c
  obtain s1 where "run (Call 1 10 # calls [(2, 11), (3, 12)]) new_sys = Some s1"
    "fetches s1 = fetches new_sys + 1" "pending s1 = [fetches new_sys]"
    "handed s1 = handed new_sys
                   @ map (\<lambda>c. (c, fetches new_sys)) (1 # map fst [(2 :: nat, 11 :: int), (3, 12)])"
    by blast
  then show ?thesis using a b c by (simp add: new_sys_def)
qed

lemma truncate_fields:
  "node_registry (validator.truncate s) = node_registry s"
  "last_fetch_time (validator.truncate s) = last_fetch_time s"
  "is_fetching (validator.truncate s) = is_fetching s"
  "fetch_promise (validator.truncate s) = fetch_promise s"
  "fetches (validator.truncate s) = fetches s"
  by (simp_all add: validator.truncate_def)

lemma fetch_node_registry_truncate:
  "fetch_node_registry r now (validator.truncate s)
     = map_sum id validator.truncate (fetch_node_registry r now s)"
  by (auto simp: fetch_node_registry_def try_fetch_def add_fallback_nodes_def
                 validator.truncate_def
           split: remote.splits option.splits prod.splits)

text \<open>
  The method as one caller sees it is the run of its three events: what
  \<open>ensure_node_registry_is_loaded\<close> returns on the fields of the object is what the
  machine reaches when nobody else is interleaved.
\<close>

lemma ensure_is_a_run:
  assumes sf: "single_flight s" and i: "idle s"
  shows "\<exists>s'. run (if stale s (at_call e)
                   then [Call c (at_call e), Settle (fetches s) (answer e) (at_done e),
                         Resume (fetches s)]
                   else [Call c (at_call e)]) s = Some s'
              \<and> ensure_node_registry_is_loaded e (validator.truncate s)
                  = Inr (validator.truncate s')"
proof (cases "stale s (at_call e)")
  case False
  have nf: "\<not> is_fetching s" using sf i by (auto simp: single_flight_cases idle_def)
  have "step (Call c (at_call e)) s = Some s" using False nf by (simp add: stale_def)
  moreover have "ensure_node_registry_is_loaded e (validator.truncate s) = Inr (validator.truncate s)"
    using False by (intro ensure_fresh) (simp add: stale_def truncate_fields)
  ultimately show ?thesis using False by simp
next
  case True
  have nf: "\<not> is_fetching s" using sf i by (auto simp: single_flight_cases idle_def)
  obtain v' where f: "fetch_node_registry (answer e) (at_done e) s = Inr v'"
    using fetch_node_registry_Inr by blast
  let ?s' = "v'\<lparr>is_fetching := False, fetch_promise := None,
                  fetches := fetches s + 1, pending := [], settled := [],
                  handed := handed s @ [(c, fetches s)]\<rparr>"
  have r: "run [Call c (at_call e), Settle (fetches s) (answer e) (at_done e), Resume (fetches s)] s
             = Some ?s'"
    using burst_settles_once[OF sf i True f, of c "[]" "[]"] by (simp add: calls_def)
  let ?t = "validator.truncate s"
  let ?t1 = "?t\<lparr>is_fetching := True, fetch_promise := Some (fetches ?t), fetches := fetches ?t + 1\<rparr>"
  have "fetch_node_registry (answer e) (at_done e) ?t1
          = Inr ((validator.truncate v')\<lparr>is_fetching := True, fetch_promise := Some (fetches s),
                                          fetches := fetches s + 1\<rparr>)"
    using f
    by (auto simp: fetch_node_registry_def try_fetch_def add_fallback_nodes_def
                   validator.truncate_def
             split: remote.splits option.splits prod.splits if_splits)
  then have "ensure_node_registry_is_loaded e ?t = Inr (validator.truncate ?s')"
    using True nf
    by (simp add: ensure_node_registry_is_loaded_def stale_def truncate_fields Let_def
                  validator.truncate_def)
  then show ?thesis using r True by simp
qed

section \<open>The response budgeter\<close>

lemma length_TRUNCATION_MESSAGE: "length TRUNCATION_MESSAGE = 106"
  by (simp add: TRUNCATION_MESSAGE_def)

lemma within_budget_iff: "estimateTokenCount s \<le> MAX_RESPONSE_TOKENS \<longleftrightarrow> length s \<le> 28000"
  by (simp add: estimateTokenCount_def MAX_RESPONSE_TOKENS_def) presburger

lemma ends_with_append: "ends_with (s @ m) m"
  by (simp add: ends_with_def)

lemma truncateResponse_within:
  "estimateTokenCount (stringify v) \<le> MAX_RESPONSE_TOKENS \<Longrightarrow> truncateResponse v = stringify v"
  by (simp add: truncateResponse_def Let_def)

lemma truncateResponse_over:
  assumes "\<not> estimateTokenCount (stringify v) \<le> MAX_RESPONSE_TOKENS"
  shows "(\<exists>items. get_prop v ''data'' = Some (JArr items)
            \<and> estimateTokenCount (stringify (truncatedObj v items)) \<le> MAX_RESPONSE_TOKENS
            \<and> truncateResponse v = stringify (truncatedObj v items) @ TRUNCATION_MESSAGE)
       \<or> truncateResponse v = take (MAX_RESPONSE_TOKENS * 4) (stringify v) @ TRUNCATION_MESSAGE"
  using assms
  by (auto simp: truncateResponse_def Let_def split: option.splits json.splits)

lemma hard_cut_exceeds:
  assumes "\<not> estimateTokenCount (stringify v) \<le> MAX_RESPONSE_TOKENS"
  shows "\<not> estimateTokenCount (take (MAX_RESPONSE_TOKENS * 4) (stringify v) @ TRUNCATION_MESSAGE)
             \<le> MAX_RESPONSE_TOKENS"
proof -
  from assms have "28000 < length (stringify v)" by (simp add: within_budget_iff)
  then have "28000 < length (take (MAX_RESPONSE_TOKENS * 4) (stringify v) @ TRUNCATION_MESSAGE)"
    by (simp add: length_TRUNCATION_MESSAGE MAX_RESPONSE_TOKENS_def min_def)
  then show ?thesis by (simp only: within_budget_iff not_le)
qed

lemma length_escape_char: "1 \<le> length (escape_char c)"
  by (simp add: escape_char_def Let_def)

lemma length_escaped: "length s \<le> length (concat (map escape_char s))"
proof (induction s)
  case Nil
  show ?case by simp
next
  case (Cons c s)
  then show ?case using length_escape_char[of c] by simp
qed

lemma length_quote: "length s + 2 \<le> length (quote s)"
  using length_escaped[of s] by (simp add: quote_def)

lemma truncateResponse_string:
  "truncateResponse (JStr s) =
     (if estimateTokenCount (quote s) \<le> MAX_RESPONSE_TOKENS then quote s
      else take (MAX_RESPONSE_TOKENS * 4) (quote s) @ TRUNCATION_MESSAGE)"
  by (simp add: truncateResponse_def stringify_def get_prop_def Let_def)

lemma shrink_of_string_longer:
  assumes "length s \<le> 28000"
  shows "length s < length (truncateResponse (JStr s))"
proof (cases "estimateTokenCount (quote s) \<le> MAX_RESPONSE_TOKENS")
  case True
  then show ?thesis using length_quote[of s] by (simp add: truncateResponse_string)
next
  case False
  then have "28000 < length (quote s)" by (simp add: within_budget_iff)
  then have "28000 < length (take (MAX_RESPONSE_TOKENS * 4) (quote s) @ TRUNCATION_MESSAGE)"
    by (simp add: length_TRUNCATION_MESSAGE MAX_RESPONSE_TOKENS_def min_def)
  then show ?thesis using False assms by (simp add: truncateResponse_string)
qed

lemma escape_x: "escape_char (CHR ''x'') = ''x''"
  by (simp add: escape_char_def)

lemma escaped_big_string: "concat (map escape_char big_string) = big_string"
proof -
  have "\<And>n. concat (map escape_char (replicate n (CHR ''x''))) = replicate n (CHR ''x'')"
  proof -
    fix n show "concat (map escape_char (replicate n (CHR ''x''))) = replicate n (CHR ''x'')"
      by (induction n) (simp_all add: escape_x)
  qed
  then show ?thesis by (simp add: big_string_def)
qed

lemma length_big_string: "length big_string = 28000"
  by (simp add: big_string_def)

lemma big_response_over: "\<not> estimateTokenCount (stringify big_response) \<le> MAX_RESPONSE_TOKENS"
proof -
  have "28000 < length (stringify big_response)"
    by (simp add: stringify_def big_response_def big_execution_def join_strings_def quote_def
                  spaces_def escaped_big_string length_big_string)
  then show ?thesis by (simp only: within_budget_iff not_le)
qed

lemma show_nat_1: "show_nat 1 = ''1''"
  by code_simp

lemma show_nat_Suc_0: "show_nat (Suc 0) = ''1''"
  using show_nat_1 by simp

lemma big_execution_item:
  "truncateExecutionItem big_execution =
     JObj [(''id'', JStr ''1''), (''status'', JStr ''success''),
           (''dataSummary'', JStr ''1 nodes executed'')]"
  by (simp add: truncateExecutionItem_def big_execution_def pick_def get_prop_def
                hasResults_def show_nat_Suc_0 Let_def)

lemma big_response_projection:
  "stringify (truncatedObj big_response [big_execution]) =
     ''{'' @ [CHR 0x0A] @ ''  '' @ [CHR 0x22] @ ''data'' @ [CHR 0x22] @ '': ['' @ [CHR 0x0A]
     @ ''    {'' @ [CHR 0x0A]
     @ ''      '' @ [CHR 0x22] @ ''id'' @ [CHR 0x22] @ '': '' @ [CHR 0x22] @ ''1'' @ [CHR 0x22] @ '','' @ [CHR 0x0A]
     @ ''      '' @ [CHR 0x22] @ ''status'' @ [CHR 0x22] @ '': '' @ [CHR 0x22] @ ''success'' @ [CHR 0x22] @ '','' @ [CHR 0x0A]
     @ ''      '' @ [CHR 0x22] @ ''dataSummary'' @ [CHR 0x22] @ '': '' @ [CHR 0x22] @ ''1 nodes executed'' @ [CHR 0x22] @ [CHR 0x0A]
     @ ''    }'' @ [CHR 0x0A]
     @ ''  ],'' @ [CHR 0x0A]
     @ ''  '' @ [CHR 0x22] @ ''nextCursor'' @ [CHR 0x22] @ '': null'' @ [CHR 0x0A]
     @ ''}''"
  by (simp add: truncatedObj_def big_response_def big_execution_item stringify_def
                join_strings_def quote_def spaces_def escape_char_def)

text \<open>
  C2, as the code has it. The string that \<open>truncateResponse\<close> returns is within the
  budget or ends with the truncation marker, at least one of the two. A value whose
  serialization is within the budget is returned as that serialization. Otherwise the
  result ends with the marker: it is either the projection of the \<open>data\<close> array, itself
  within the budget, followed by the marker, or the serialization cut at
  \<open>4 * MAX_RESPONSE_TOKENS\<close> characters followed by the marker, and this last result
  always exceeds the budget.
\<close>

theorem shrink_within_budget_or_marked:
  "(estimateTokenCount (truncateResponse v) \<le> MAX_RESPONSE_TOKENS
      \<or> ends_with (truncateResponse v) TRUNCATION_MESSAGE)
   \<and> (estimateTokenCount (stringify v) \<le> MAX_RESPONSE_TOKENS \<longrightarrow>
        truncateResponse v = stringify v)
   \<and> (\<not> estimateTokenCount (stringify v) \<le> MAX_RESPONSE_TOKENS \<longrightarrow>
        ends_with (truncateResponse v) TRUNCATION_MESSAGE
      \<and> ((\<exists>items. get_prop v ''data'' = Some (JArr items)
               \<and> estimateTokenCount (stringify (truncatedObj v items)) \<le> MAX_RESPONSE_TOKENS
               \<and> truncateResponse v = stringify (truncatedObj v items) @ TRUNCATION_MESSAGE)
          \<or> (truncateResponse v
                 = take (MAX_RESPONSE_TOKENS * 4) (stringify v) @ TRUNCATION_MESSAGE
               \<and> \<not> estimateTokenCount (truncateResponse v) \<le> MAX_RESPONSE_TOKENS)))"
proof -
  have within: "estimateTokenCount (stringify v) \<le> MAX_RESPONSE_TOKENS \<longrightarrow>
        truncateResponse v = stringify v"
    using truncateResponse_within by blast
  have over: "\<not> estimateTokenCount (stringify v) \<le> MAX_RESPONSE_TOKENS \<longrightarrow>
        ends_with (truncateResponse v) TRUNCATION_MESSAGE
      \<and> ((\<exists>items. get_prop v ''data'' = Some (JArr items)
               \<and> estimateTokenCount (stringify (truncatedObj v items)) \<le> MAX_RESPONSE_TOKENS
               \<and> truncateResponse v = stringify (truncatedObj v items) @ TRUNCATION_MESSAGE)
          \<or> (truncateResponse v
                 = take (MAX_RESPONSE_TOKENS * 4) (stringify v) @ TRUNCATION_MESSAGE
               \<and> \<not> estimateTokenCount (truncateResponse v) \<le> MAX_RESPONSE_TOKENS))"
  proof
    assume o: "\<not> estimateTokenCount (stringify v) \<le> MAX_RESPONSE_TOKENS"
    from truncateResponse_over[OF o] hard_cut_exceeds[OF o]
    show "ends_with (truncateResponse v) TRUNCATION_MESSAGE
      \<and> ((\<exists>items. get_prop v ''data'' = Some (JArr items)
               \<and> estimateTokenCount (stringify (truncatedObj v items)) \<le> MAX_RESPONSE_TOKENS
               \<and> truncateResponse v = stringify (truncatedObj v items) @ TRUNCATION_MESSAGE)
          \<or> (truncateResponse v
                 = take (MAX_RESPONSE_TOKENS * 4) (stringify v) @ TRUNCATION_MESSAGE
               \<and> \<not> estimateTokenCount (truncateResponse v) \<le> MAX_RESPONSE_TOKENS))"
      by (auto simp: ends_with_append)
  qed
  have "estimateTokenCount (truncateResponse v) \<le> MAX_RESPONSE_TOKENS
      \<or> ends_with (truncateResponse v) TRUNCATION_MESSAGE"
    using within over by (cases "estimateTokenCount (stringify v) \<le> MAX_RESPONSE_TOKENS") auto
  then show ?thesis using within over by blast
qed

lemma small_value_string:
  "stringify small_value = ''{'' @ [CHR 0x0A] @ ''  '' @ [CHR 0x22] @ ''id'' @ [CHR 0x22] @ '': 1''
                            @ [CHR 0x0A] @ ''}''"
  by (simp add: small_value_def stringify_def join_strings_def quote_def spaces_def
                escape_char_def)

lemma small_value_within: "estimateTokenCount (stringify small_value) \<le> MAX_RESPONSE_TOKENS"
  by (simp add: small_value_string within_budget_iff)

lemma big_string_over:
  "\<not> estimateTokenCount (stringify (JStr big_string)) \<le> MAX_RESPONSE_TOKENS"
proof -
  have "28000 < length (stringify (JStr big_string))"
    by (simp add: stringify_def quote_def escaped_big_string length_big_string)
  then show ?thesis by (simp only: within_budget_iff not_le)
qed

theorem shrink_within_budget_or_marked_witness:
  "estimateTokenCount (stringify small_value) \<le> MAX_RESPONSE_TOKENS
   \<and> truncateResponse small_value = stringify small_value
   \<and> \<not> estimateTokenCount (stringify (JStr big_string)) \<le> MAX_RESPONSE_TOKENS
   \<and> ends_with (truncateResponse (JStr big_string)) TRUNCATION_MESSAGE"
  using shrink_within_budget_or_marked[of small_value]
        shrink_within_budget_or_marked[of "JStr big_string"]
        small_value_within big_string_over
  by blast

lemma big_response_result:
  "truncateResponse big_response
     = stringify (truncatedObj big_response [big_execution]) @ TRUNCATION_MESSAGE"
proof -
  have p: "get_prop big_response ''data'' = Some (JArr [big_execution])"
    by (simp add: get_prop_def big_response_def)
  have w: "estimateTokenCount (stringify (truncatedObj big_response [big_execution]))
             \<le> MAX_RESPONSE_TOKENS"
    by (simp add: big_response_projection within_budget_iff)
  show ?thesis
    using big_response_over p w by (simp add: truncateResponse_def Let_def)
qed

text \<open>
  The claim as stated fails: the two outcomes are not exclusive. The response holds
  one execution whose run data is 28000 characters long; the result is the projection
  followed by the marker, and it is within the budget as well.
\<close>

theorem marked_and_within_budget:
  "estimateTokenCount (truncateResponse big_response) \<le> MAX_RESPONSE_TOKENS
   \<and> ends_with (truncateResponse big_response) TRUNCATION_MESSAGE"
proof
  show "estimateTokenCount (truncateResponse big_response) \<le> MAX_RESPONSE_TOKENS"
    by (simp add: big_response_result big_response_projection within_budget_iff
                  length_TRUNCATION_MESSAGE)
  show "ends_with (truncateResponse big_response) TRUNCATION_MESSAGE"
    by (simp add: big_response_result ends_with_append)
qed

text \<open>
  C7, as the code has it. A value whose serialization is within the budget is returned
  as that serialization. Shrinking the returned string again serializes the string
  itself: the result is its JSON string literal, quoted and escaped (cut and marked when
  the literal exceeds the budget), which is always longer than the string.
\<close>

theorem reshrink_serializes_the_string:
  "estimateTokenCount (stringify v) \<le> MAX_RESPONSE_TOKENS \<longrightarrow>
     truncateResponse v = stringify v
   \<and> truncateResponse (JStr (truncateResponse v))
       = (if estimateTokenCount (quote (stringify v)) \<le> MAX_RESPONSE_TOKENS
          then quote (stringify v)
          else take (MAX_RESPONSE_TOKENS * 4) (quote (stringify v)) @ TRUNCATION_MESSAGE)
   \<and> length (truncateResponse v) < length (truncateResponse (JStr (truncateResponse v)))"
proof
  assume w: "estimateTokenCount (stringify v) \<le> MAX_RESPONSE_TOKENS"
  have e: "truncateResponse v = stringify v" by (rule truncateResponse_within[OF w])
  have l: "length (stringify v) \<le> 28000" using w by (simp add: within_budget_iff)
  show "truncateResponse v = stringify v
   \<and> truncateResponse (JStr (truncateResponse v))
       = (if estimateTokenCount (quote (stringify v)) \<le> MAX_RESPONSE_TOKENS
          then quote (stringify v)
          else take (MAX_RESPONSE_TOKENS * 4) (quote (stringify v)) @ TRUNCATION_MESSAGE)
   \<and> length (truncateResponse v) < length (truncateResponse (JStr (truncateResponse v)))"
    using e shrink_of_string_longer[OF l] truncateResponse_string[of "stringify v"]
    by simp
qed

theorem reshrink_serializes_the_string_witness:
  "estimateTokenCount (stringify small_value) \<le> MAX_RESPONSE_TOKENS
   \<and> length (truncateResponse small_value)
       < length (truncateResponse (JStr (truncateResponse small_value)))"
  using reshrink_serializes_the_string[of small_value] small_value_within by blast

text \<open>
  The claim as stated fails: \<open>{"id": 1}\<close> is within the budget, its shrink is its
  serialization, and the shrink of that string is the string in quotes, with its line
  breaks and quotes escaped.
\<close>

theorem shrink_twice_differs:
  "estimateTokenCount (stringify small_value) \<le> MAX_RESPONSE_TOKENS
   \<and> truncateResponse small_value
       = ''{'' @ [CHR 0x0A] @ ''  '' @ [CHR 0x22] @ ''id'' @ [CHR 0x22] @ '': 1'' @ [CHR 0x0A] @ ''}''
   \<and> truncateResponse (JStr (truncateResponse small_value))
       = [CHR 0x22] @ ''{'' @ [CHR 0x5C] @ ''n  '' @ [CHR 0x5C, CHR 0x22] @ ''id''
         @ [CHR 0x5C, CHR 0x22] @ '': 1'' @ [CHR 0x5C] @ ''n}'' @ [CHR 0x22]
   \<and> truncateResponse (JStr (truncateResponse small_value)) \<noteq> truncateResponse small_value"
proof -
  have a: "truncateResponse small_value = stringify small_value"
    by (rule truncateResponse_within[OF small_value_within])
  have q: "quote (stringify small_value)
       = [CHR 0x22] @ ''{'' @ [CHR 0x5C] @ ''n  '' @ [CHR 0x5C, CHR 0x22] @ ''id''
         @ [CHR 0x5C, CHR 0x22] @ '': 1'' @ [CHR 0x5C] @ ''n}'' @ [CHR 0x22]"
    by (simp add: small_value_string quote_def escape_char_def)
  have w: "estimateTokenCount (quote (stringify small_value)) \<le> MAX_RESPONSE_TOKENS"
    by (simp add: q within_budget_iff)
  have b: "truncateResponse (JStr (stringify small_value)) = quote (stringify small_value)"
    using w by (simp add: truncateResponse_string)
  show ?thesis
    using small_value_within a b q small_value_string by simp
qed

section \<open>The keys of the registry\<close>

text \<open>
  A payload that holds \<open>null\<close> under some key is not among the failures above: the
  \<open>try\<close> block has cleared the registry when reading \<open>node.name\<close> throws, so the
  \<open>catch\<close> clause finds what the loop had stored so far, or installs the fallback.
\<close>

lemma null_entry_replaces_registry:
  "map_sum id (map_keys \<circ> node_registry)
      (fetch_node_registry (Json (Some [(''k'', None)])) 4000005 populated)
     = Inr fallback_names"
  by (simp add: fetch_node_registry_def try_fetch_def populated_def add_fallback_nodes_def
                fallback_nodes_def fallback_names_def map_keys_def)

text \<open>
  No key of the registry is the empty string: the payload loop skips empty names and the
  fallback names are not empty. The hypothesis of the two theorems on the suggestion
  thus holds of every validator that starts as \<open>new_validator\<close>.
\<close>

lemma update_keys_nonempty:
  "k \<noteq> [] \<Longrightarrow> [] \<notin> fst ` set reg \<Longrightarrow> [] \<notin> fst ` set (AList.update k x reg)"
  by (simp add: dom_update)

lemma process_nodes_keys_nonempty:
  "[] \<notin> fst ` set reg \<Longrightarrow> [] \<notin> fst ` set (fst (process_nodes es reg))"
  by (induction es reg rule: process_nodes.induct)
     (auto simp: dom_update split: option.splits)

lemma fallback_keys_nonempty:
  "node_registry v = [] \<Longrightarrow> [] \<notin> fst ` set (node_registry (add_fallback_nodes v))"
  by (simp add: fallback_registry fallback_nodes_def)

lemma fetch_keys_nonempty:
  assumes "[] \<notin> set (map_keys (node_registry v))" "fetch_node_registry r now v = Inr v'"
  shows "[] \<notin> set (map_keys (node_registry v'))"
proof (cases r)
  case (Json data)
  show ?thesis
  proof (cases data)
    case None
    then show ?thesis using assms Json
      by (auto simp: fetch_node_registry_def try_fetch_def map_keys_def)
  next
    case (Some es)
    obtain reg err where p: "process_nodes es [] = (reg, err)" by (cases "process_nodes es []")
    have k: "[] \<notin> fst ` set reg" using process_nodes_keys_nonempty[of "[]" es] p by simp
    show ?thesis
    proof (cases err)
      case None
      then show ?thesis using assms(2) Json Some p k
        by (auto simp: fetch_node_registry_def try_fetch_def map_keys_def)
    next
      case (Some e)
      show ?thesis
      proof (cases "reg = []")
        case True
        have "[] \<notin> fst ` set (node_registry (add_fallback_nodes (v\<lparr>node_registry := []\<rparr>)))"
          by (rule fallback_keys_nonempty) simp
        then show ?thesis using assms(2) Json \<open>data = Some es\<close> p Some True
          by (auto simp: fetch_node_registry_def try_fetch_def map_keys_def)
      next
        case False
        then show ?thesis using assms(2) Json \<open>data = Some es\<close> p Some k
          by (auto simp: fetch_node_registry_def try_fetch_def map_keys_def)
      qed
    qed
  qed
next
  case FetchThrows
  then have f: "remote_fails r" by simp
  show ?thesis
  proof (cases "node_registry v = []")
    case True
    from fetch_fails_empty[OF f True, of now] fallback_keys_nonempty[OF True] assms(2)
    show ?thesis by (auto simp: map_keys_def)
  next
    case False
    from fetch_fails_nonempty[OF f False, of now] assms show ?thesis by simp
  qed
next
  case (NotOk st)
  then have f: "remote_fails r" by simp
  show ?thesis
  proof (cases "node_registry v = []")
    case True
    from fetch_fails_empty[OF f True, of now] fallback_keys_nonempty[OF True] assms(2)
    show ?thesis by (auto simp: map_keys_def)
  next
    case False
    from fetch_fails_nonempty[OF f False, of now] assms show ?thesis by simp
  qed
next
  case JsonThrows
  then have f: "remote_fails r" by simp
  show ?thesis
  proof (cases "node_registry v = []")
    case True
    from fetch_fails_empty[OF f True, of now] fallback_keys_nonempty[OF True] assms(2)
    show ?thesis by (auto simp: map_keys_def)
  next
    case False
    from fetch_fails_nonempty[OF f False, of now] assms show ?thesis by simp
  qed
qed

lemma ensure_keys_nonempty:
  assumes "[] \<notin> set (map_keys (node_registry v))" "ensure_node_registry_is_loaded e v = Inr v'"
  shows "[] \<notin> set (map_keys (node_registry v'))"
proof -
  let ?v1 = "v\<lparr>is_fetching := True, fetch_promise := Some (fetches v), fetches := fetches v + 1\<rparr>"
  obtain v2 where f: "fetch_node_registry (answer e) (at_done e) ?v1 = Inr v2"
    using fetch_node_registry_Inr by blast
  have "[] \<notin> set (map_keys (node_registry v2))"
    using fetch_keys_nonempty[OF _ f] assms(1) by simp
  then show ?thesis using assms f
    by (auto simp: ensure_node_registry_is_loaded_def Let_def split: if_splits)
qed

lemma new_validator_keys_nonempty: "[] \<notin> set (map_keys (node_registry new_validator))"
  by (simp add: new_validator_def map_keys_def)

end
